theory Spec2Isabelle
  imports Main
begin

section \<open>Data model of parser.go\<close>

text \<open>
  A Go \<^verbatim>\<open>[]byte\<close> buffer is a \<^typ>\<open>string\<close> (a list of 8-bit characters). Go's
  \<^verbatim>\<open>int\<close> indices are modelled as \<^typ>\<open>int\<close>: every index the scanner computes is
  bounded by the length of the buffer, and \<open>-1\<close> is the "absent" sentinel of the
  scanner primitives. A slice that may be \<^verbatim>\<open>nil\<close> is a \<^typ>\<open>string option\<close>
  (\<open>None\<close> is \<^verbatim>\<open>nil\<close>), an \<^verbatim>\<open>error\<close> that may be \<^verbatim>\<open>nil\<close> is an
  \<open>error option\<close>.
\<close>

abbreviation dquote :: char where "dquote \<equiv> CHR 0x22"
abbreviation bslash :: char where "bslash \<equiv> CHR 0x5C"

text \<open>
  The package-level error variables, and \<open>ErrorsNew msg\<close> for an error value that a
  function allocates itself by \<^verbatim>\<open>errors.New(msg)\<close>: such a value is a fresh pointer and
  compares unequal to every package-level variable, also to one with the same message.
\<close>

datatype error =
    KeyPathNotFoundError
  | UnknownValueTypeError
  | MalformedJsonError
  | MalformedStringError
  | MalformedArrayError
  | MalformedObjectError
  | MalformedNumberError
  | MalformedLiteralError
  | ExpectedArrayError
  | ErrorsNew string

datatype ValueType = NotExist | String | Number | Object | Array | Boolean | Null | Unknown

text \<open>
  A call either returns or stops in a Go run-time panic (an index out of range).
  A call that does neither (it loops forever) is the value \<open>None\<close> of the option
  type that wraps the outcome of the functions whose loop is not bounded.
\<close>

datatype 'a outcome = Return 'a | Panic

type_synonym slice = "string option"

type_synonym get_result = "slice \<times> ValueType \<times> int \<times> error option"

text \<open>\<^verbatim>\<open>data[lo:]\<close> and \<^verbatim>\<open>data[lo:hi]\<close>, for \<open>0 \<le> lo \<le> hi \<le> len(data)\<close>.\<close>

definition slice_from :: "string \<Rightarrow> int \<Rightarrow> string" where
  "slice_from data lo = drop (nat lo) data"

definition slice_range :: "string \<Rightarrow> int \<Rightarrow> int \<Rightarrow> string" where
  "slice_range data lo hi = take (nat (hi - lo)) (drop (nat lo) data)"

section \<open>Scanner primitives\<close>

fun tokenEnd_loop :: "int \<Rightarrow> string \<Rightarrow> int" where
  "tokenEnd_loop i [] = - 1"
| "tokenEnd_loop i (c # cs) =
     (if c \<in> {CHR '' '', CHR 0x0A, CHR 0x0D, CHR 0x09, CHR '','', CHR ''}'', CHR '']''}
      then i else tokenEnd_loop (i + 1) cs)"

definition tokenEnd :: "string \<Rightarrow> int" where
  "tokenEnd data = tokenEnd_loop 0 data"

fun nextToken_loop :: "int \<Rightarrow> string \<Rightarrow> int" where
  "nextToken_loop i [] = - 1"
| "nextToken_loop i (c # cs) =
     (if c \<in> {CHR '' '', CHR 0x0A, CHR 0x0D, CHR 0x09}
      then nextToken_loop (i + 1) cs else i)"

definition nextToken :: "string \<Rightarrow> int" where
  "nextToken data = nextToken_loop 0 data"

fun nextArrayElement_loop :: "bool \<Rightarrow> int \<Rightarrow> string \<Rightarrow> int" where
  "nextArrayElement_loop seenComma i [] = - 1"
| "nextArrayElement_loop seenComma i (c # cs) =
     (if c \<in> {CHR '' '', CHR 0x0A, CHR 0x0D, CHR 0x09}
      then nextArrayElement_loop seenComma (i + 1) cs
      else if c = CHR '',''
      then (if seenComma then - 1 else nextArrayElement_loop True (i + 1) cs)
      else (if \<not> seenComma then - 1 else i))"

definition nextArrayElement :: "string \<Rightarrow> int" where
  "nextArrayElement data = nextArrayElement_loop False 0 data"

lemma tokenEnd_loop_ge: "tokenEnd_loop i cs = - 1 \<or> i \<le> tokenEnd_loop i cs"
  by (induction i cs rule: tokenEnd_loop.induct) auto

lemma nextArrayElement_loop_ge:
  "nextArrayElement_loop seenComma i cs = - 1 \<or>
   (if seenComma then i else i + 1) \<le> nextArrayElement_loop seenComma i cs"
  by (induction seenComma i cs rule: nextArrayElement_loop.induct) auto

text \<open>
  The inner loop of \<^verbatim>\<open>stringEnd\<close>, started at \<open>j = i - 1\<close> for a quote at \<open>i\<close>: it walks
  backwards two bytes at a time. \<open>True\<close> is the \<^verbatim>\<open>return i + 1\<close> exit (an even number of
  backslashes), \<open>False\<close> the \<^verbatim>\<open>break\<close> exit (an odd number).
\<close>

function stringEnd_back :: "string \<Rightarrow> int \<Rightarrow> bool" where
  "stringEnd_back data j =
     (if j < 0 \<or> data ! nat j \<noteq> bslash then True
      else if j - 1 < 0 \<or> data ! nat (j - 1) \<noteq> bslash then False
      else stringEnd_back data (j - 1 - 1))"
  by pat_completeness auto
termination
  by (relation "measure (\<lambda>(data, j). nat (j + 1))") auto

declare stringEnd_back.simps [simp del]

function stringEnd_loop :: "string \<Rightarrow> int \<Rightarrow> int" where
  "stringEnd_loop data i =
     (if 0 \<le> i \<and> i < int (length data)
      then (if data ! nat i = dquote \<and> stringEnd_back data (i - 1)
            then i + 1
            else stringEnd_loop data (i + 1))
      else - 1)"
  by pat_completeness auto
termination
  by (relation "measure (\<lambda>(data, i). nat (int (length data) - i))") auto

declare stringEnd_loop.simps [simp del]

definition stringEnd :: "string \<Rightarrow> int" where
  "stringEnd data = stringEnd_loop data 0"

lemma stringEnd_loop_range:
  "stringEnd_loop data i = - 1 \<or>
   (i < stringEnd_loop data i \<and> stringEnd_loop data i \<le> int (length data))"
proof (induction data i rule: stringEnd_loop.induct)
  case (1 data i)
  note unfold = stringEnd_loop.simps [of data i]
  show ?case
  proof (cases "0 \<le> i \<and> i < int (length data)")
    case False
    then show ?thesis using unfold by auto
  next
    case True
    show ?thesis
    proof (cases "data ! nat i = dquote \<and> stringEnd_back data (i - 1)")
      case t: True
      with True unfold show ?thesis by auto
    next
      case f: False
      from "1.IH" [OF True f] True f unfold show ?thesis by auto
    qed
  qed
qed

lemma stringEnd_range:
  "stringEnd data = - 1 \<or> (1 \<le> stringEnd data \<and> stringEnd data \<le> int (length data))"
  using stringEnd_loop_range [of data 0] by (auto simp: stringEnd_def)

text \<open>
  \<^verbatim>\<open>blockEnd\<close>: the loop over \<open>i\<close> with the nesting \<open>level\<close>. The \<^verbatim>\<open>switch\<close> takes the
  first case that matches, in the order of the source.
\<close>

function blockEnd_loop :: "string \<Rightarrow> char \<Rightarrow> char \<Rightarrow> int \<Rightarrow> int \<Rightarrow> int" where
  "blockEnd_loop data openSym closeSym level i =
     (if 0 \<le> i \<and> i < int (length data)
      then (if data ! nat i = dquote
            then (let se = stringEnd (slice_from data (i + 1)) in
                  if se = - 1 then - 1
                  else blockEnd_loop data openSym closeSym level (i + se + 1))
            else if data ! nat i = openSym
            then blockEnd_loop data openSym closeSym (level + 1) (i + 1)
            else if data ! nat i = closeSym
            then (if level - 1 = 0 then i + 1
                  else blockEnd_loop data openSym closeSym (level - 1) (i + 1))
            else blockEnd_loop data openSym closeSym level (i + 1))
      else - 1)"
  by pat_completeness auto
termination
proof (relation "measure (\<lambda>(data, openSym, closeSym, level, i). nat (int (length data) - i))",
    goal_cases)
  case 1
  show ?case by simp
next
  case (2 data openSym closeSym level i se)
  with stringEnd_range [of "slice_from data (i + 1)"] show ?case by auto
qed auto

declare blockEnd_loop.simps [simp del]

definition blockEnd :: "string \<Rightarrow> char \<Rightarrow> char \<Rightarrow> int" where
  "blockEnd data openSym closeSym = blockEnd_loop data openSym closeSym 0 0"

lemma blockEnd_loop_range:
  "blockEnd_loop data openSym closeSym level i = - 1 \<or>
   (i < blockEnd_loop data openSym closeSym level i \<and>
    blockEnd_loop data openSym closeSym level i \<le> int (length data) \<and>
    data ! nat (blockEnd_loop data openSym closeSym level i - 1) = closeSym)"
proof (induction data openSym closeSym level i rule: blockEnd_loop.induct)
  case (1 data openSym closeSym level i)
  note unfold = blockEnd_loop.simps [of data openSym closeSym level i]
  show ?case
  proof (cases "0 \<le> i \<and> i < int (length data)")
    case False
    then show ?thesis using unfold by auto
  next
    case inside: True
    show ?thesis
    proof (cases "data ! nat i = dquote")
      case True
      show ?thesis
      proof (cases "stringEnd (slice_from data (i + 1)) = - 1")
        case True
        with inside \<open>data ! nat i = dquote\<close> unfold show ?thesis by simp
      next
        case False
        with stringEnd_range [of "slice_from data (i + 1)"]
        have "1 \<le> stringEnd (slice_from data (i + 1))" by auto
        with "1.IH"(1) [OF inside True refl False] inside True False unfold
        show ?thesis by (auto simp: Let_def)
      qed
    next
      case nq: False
      show ?thesis
      proof (cases "data ! nat i = openSym")
        case True
        with "1.IH"(2) [OF inside nq True] inside nq unfold show ?thesis by auto
      next
        case no: False
        show ?thesis
        proof (cases "data ! nat i = closeSym")
          case True
          show ?thesis
          proof (cases "level - 1 = 0")
            case True
            with inside nq no \<open>data ! nat i = closeSym\<close> unfold show ?thesis by auto
          next
            case False
            with "1.IH"(3) [OF inside nq no True False] inside nq no True unfold
            show ?thesis by auto
          qed
        next
          case False
          with "1.IH"(4) [OF inside nq no False] inside nq no unfold show ?thesis by auto
        qed
      qed
    qed
  qed
qed

section \<open>Value classification\<close>

definition GetValue :: "string \<Rightarrow> get_result" where
  "GetValue data =
     (if length data = 0 then (None, Unknown, - 1, Some UnknownValueTypeError)
      else if data ! 0 = dquote
      then (let strEndQuoteOffMinus1 = stringEnd (slice_from data 1) in
            if strEndQuoteOffMinus1 = - 1
            then (None, Unknown, - 1, Some MalformedStringError)
            else (Some (slice_range data 1 strEndQuoteOffMinus1), String,
                  strEndQuoteOffMinus1 + 1, None))
      else if data ! 0 = CHR ''[''
      then (let blockLen = blockEnd data (CHR ''['') (CHR '']'') in
            if blockLen = - 1
            then (None, Unknown, - 1, Some MalformedArrayError)
            else (Some (slice_range data 0 blockLen), Array, blockLen, None))
      else if data ! 0 = CHR ''{''
      then (let blockLen = blockEnd data (CHR ''{'') (CHR ''}'') in
            if blockLen = - 1
            then (None, Unknown, - 1, Some MalformedObjectError)
            else (Some (slice_range data 0 blockLen), Object, blockLen, None))
      else if data ! 0 \<in> {CHR ''t'', CHR ''f'', CHR ''n''}
      then (let tokenLen = tokenEnd data in
            if tokenLen = - 1
            then (None, Unknown, - 1, Some MalformedLiteralError)
            else (let v = slice_range data 0 tokenLen in
                  if v = ''null'' then (None, Null, tokenLen, None)
                  else if v = ''true'' \<or> v = ''false''
                  then (Some v, Boolean, tokenLen, None)
                  else (None, Unknown, - 1, Some UnknownValueTypeError)))
      else if data ! 0 \<in> set ''0123456789-''
      then (let tokenLen = tokenEnd data in
            if tokenLen = - 1
            then (None, Unknown, - 1, Some MalformedNumberError)
            else (Some (slice_range data 0 tokenLen), Number, tokenLen, None))
      else (None, Unknown, - 1, Some (ErrorsNew ''Unknown value type'')))"

section \<open>Key-path search\<close>

text \<open>
  The loop of \<^verbatim>\<open>searchKeys\<close> over \<open>i\<close>, with \<open>keyLevel\<close> and \<open>level\<close>. Nothing in the source
  bounds it: after \<^verbatim>\<open>i += arraySkip - 1\<close> the index may go backwards. So the loop is a
  partial function: \<open>None\<close> is a run that never ends, \<open>Some Panic\<close> an index out of range
  (\<^verbatim>\<open>data[i]\<close> with \<open>i < 0\<close>, or \<^verbatim>\<open>keys[level-1]\<close> outside \<open>keys\<close>), \<open>Some (Return r)\<close>
  the returned index. The \<^verbatim>\<open>i++\<close> that ends every iteration is the \<open>+ 1\<close> of each
  recursive call.
\<close>

partial_function (option) searchKeys_loop ::
  "string \<Rightarrow> string list \<Rightarrow> int \<Rightarrow> int \<Rightarrow> int \<Rightarrow> int outcome option" where
  "searchKeys_loop data keys keyLevel level i =
     (if i < int (length data)
      then (if i < 0 then Some Panic
            else if data ! nat i = dquote
            then (let keyBegin = i + 1;
                      strEnd = stringEnd (slice_from data (i + 1)) in
                  if strEnd = - 1 then Some (Return (- 1))
                  else (let keyEnd = i + 1 + strEnd - 1;
                            valueOffset = nextToken (slice_from data (i + 1 + strEnd)) in
                        if valueOffset = - 1 then Some (Return (- 1))
                        else (let i' = i + 1 + strEnd + valueOffset in
                              if data ! nat i' = CHR '':''
                              then (if keyLevel = level - 1
                                    then (if level - 1 < 0 \<or> int (length keys) \<le> level - 1
                                          then Some Panic
                                          else if keys ! nat (level - 1) =
                                                  slice_range data keyBegin keyEnd
                                          then (if keyLevel + 1 = int (length keys)
                                                then Some (Return (i' + 1))
                                                else searchKeys_loop data keys (keyLevel + 1)
                                                       level (i' + 1))
                                          else searchKeys_loop data keys keyLevel level (i' + 1))
                                    else searchKeys_loop data keys keyLevel level (i' + 1))
                              else searchKeys_loop data keys keyLevel level (i' - 1 + 1))))
            else if data ! nat i = CHR ''{''
            then searchKeys_loop data keys keyLevel (level + 1) (i + 1)
            else if data ! nat i = CHR ''}''
            then searchKeys_loop data keys keyLevel (level - 1) (i + 1)
            else if data ! nat i = CHR ''[''
            then (let arraySkip = blockEnd (slice_from data i) (CHR ''['') (CHR '']'') in
                  searchKeys_loop data keys keyLevel level (i + (arraySkip - 1) + 1))
            else searchKeys_loop data keys keyLevel level (i + 1))
      else Some (Return (- 1)))"

declare searchKeys_loop.simps [code]

definition searchKeys :: "string \<Rightarrow> string list \<Rightarrow> int outcome option" where
  "searchKeys data keys = searchKeys_loop data keys 0 0 0"

section \<open>Path resolution\<close>

text \<open>
  \<^verbatim>\<open>Get\<close>. The named result \<open>offset\<close> is \<open>0\<close> when no key is given. The error of the
  whitespace-only case is allocated in place by \<^verbatim>\<open>errors.New\<close>.
\<close>

definition Get :: "string \<Rightarrow> string list \<Rightarrow> get_result outcome option" where
  "Get data keys =
     (case (if 0 < length keys then searchKeys data keys else Some (Return 0)) of
        None \<Rightarrow> None
      | Some Panic \<Rightarrow> Some Panic
      | Some (Return offset) \<Rightarrow>
          if 0 < length keys \<and> offset = - 1
          then Some (Return (None, NotExist, - 1, Some KeyPathNotFoundError))
          else (let skipToToken = nextToken (slice_from data offset) in
                if skipToToken = - 1
                then Some (Return (None, Unknown, - 1, Some (ErrorsNew ''Malformed JSON error'')))
                else (let offset' = offset + skipToToken in
                      case GetValue (slice_from data offset') of
                        (value, dataType, valueOffset, err) \<Rightarrow>
                          if err \<noteq> None then Some (Return (None, Unknown, - 1, err))
                          else Some (Return (value, dataType, offset' + valueOffset, None)))))"

lemma GetValue_offset_nonneg:
  assumes "GetValue data = (v, t, off, None)"
  shows "0 \<le> off"
proof -
  note se = stringEnd_range [of "slice_from data 1"]
  note ba = blockEnd_loop_range [of data "CHR ''[''" "CHR '']''" 0 0]
  note bo = blockEnd_loop_range [of data "CHR ''{''" "CHR ''}''" 0 0]
  note te = tokenEnd_loop_ge [of 0 data]
  from assms se ba bo te show ?thesis
    by (auto simp: GetValue_def Let_def blockEnd_def tokenEnd_def split: if_splits)
qed

lemma nextArrayElement_pos: "nextArrayElement d \<noteq> - 1 \<Longrightarrow> 1 \<le> nextArrayElement d"
  using nextArrayElement_loop_ge [of False 0 d] by (auto simp: nextArrayElement_def)

section \<open>Array iteration\<close>

text \<open>
  The visitor \<^verbatim>\<open>cb\<close> is any Go function; what \<^verbatim>\<open>ArrayEach\<close> does with it is the list of the
  calls it makes, in order, each with its four arguments. \<open>ArrayEach\<close> returns that list
  and the error it returns. A \<^verbatim>\<open>break\<close> leaves the loop for the final \<^verbatim>\<open>return nil\<close>.
  Slicing a \<^verbatim>\<open>nil\<close> array value at \<open>1\<close> would panic; \<open>Get\<close> never returns one with the type
  \<open>Array\<close>.
\<close>

type_synonym cb_call = "slice \<times> ValueType \<times> int \<times> error option"

function ArrayEach_loop ::
  "string \<Rightarrow> int \<Rightarrow> int \<Rightarrow> cb_call list \<Rightarrow> cb_call list \<times> error option" where
  "ArrayEach_loop arrayValue arrayBeginOffset offsetInArray calls =
     (if offsetInArray < int (length arrayValue) - 1
      then (case GetValue (slice_from arrayValue offsetInArray) of
              (elementValue, elementType, elementOffset, err) \<Rightarrow>
                (let offsetInArray' = offsetInArray + elementOffset in
                 if elementType = NotExist then (calls, None)
                 else (let calls' = calls @ [(elementValue, elementType,
                                              arrayBeginOffset + offsetInArray', err)] in
                       if err \<noteq> None then (calls', None)
                       else (let skipToNextValue =
                                   nextArrayElement (slice_from arrayValue offsetInArray') in
                             if skipToNextValue = - 1 then (calls', Some MalformedArrayError)
                             else ArrayEach_loop arrayValue arrayBeginOffset
                                    (offsetInArray' + skipToNextValue) calls'))))
      else (calls, None))"
  by pat_completeness auto
termination
proof (relation "measure (\<lambda>(arrayValue, arrayBeginOffset, offsetInArray, calls).
                   nat (int (length arrayValue) - offsetInArray))", goal_cases)
  case 1
  show ?case by simp
next
  case 2
  then show ?case
    by (clarsimp dest!: GetValue_offset_nonneg [OF sym] nextArrayElement_pos)
qed

declare ArrayEach_loop.simps [simp del]

definition ArrayEach :: "string \<Rightarrow> string list \<Rightarrow> (cb_call list \<times> error option) outcome option" where
  "ArrayEach data keys =
     (case Get data keys of
        None \<Rightarrow> None
      | Some Panic \<Rightarrow> Some Panic
      | Some (Return (arrayValue, dataType, arrayOffset, err)) \<Rightarrow>
          if err \<noteq> None then Some (Return ([], err))
          else if dataType \<noteq> Array then Some (Return ([], Some ExpectedArrayError))
          else (case arrayValue of
                  None \<Rightarrow> Some Panic
                | Some arrayValue \<Rightarrow>
                    (let arrayBeginOffset = arrayOffset - int (length arrayValue);
                         offsetInArray = 1;
                         skipToFirstValue = nextToken (slice_from arrayValue offsetInArray) in
                     if skipToFirstValue = - 1 then Some (Return ([], Some MalformedArrayError))
                     else Some (Return (ArrayEach_loop arrayValue arrayBeginOffset
                                          (offsetInArray + skipToFirstValue) [])))))"

section \<open>Vocabulary of the properties\<close>

text \<open>The two byte classes of the scanner, as the \<^verbatim>\<open>case\<close> lists of the source spell them.\<close>

definition whitespace :: "char set" where
  "whitespace = {CHR '' '', CHR 0x0A, CHR 0x0D, CHR 0x09}"

definition token_terminators :: "char set" where
  "token_terminators =
     {CHR '' '', CHR 0x0A, CHR 0x0D, CHR 0x09, CHR '','', CHR ''}'', CHR '']''}"

text \<open>The token at the start of a buffer: the bytes before the first token terminator.\<close>

definition token :: "string \<Rightarrow> string" where
  "token data = takeWhile (\<lambda>c. c \<notin> token_terminators) data"

text \<open>
  The reading of the escape rule that \<^verbatim>\<open>stringEnd\<close> is compared with: the number of
  consecutive backslashes that end just before index \<open>i\<close>, a quote that closes the string
  (an even number of them before it), and the index after the first such quote.
\<close>

definition backslashes_before :: "string \<Rightarrow> nat \<Rightarrow> nat" where
  "backslashes_before data i = length (takeWhile (\<lambda>c. c = bslash) (rev (take i data)))"

definition closing_quote_at :: "string \<Rightarrow> nat \<Rightarrow> bool" where
  "closing_quote_at data i \<longleftrightarrow> data ! i = dquote \<and> even (backslashes_before data i)"

definition stringEnd_spec :: "string \<Rightarrow> int" where
  "stringEnd_spec data =
     (case find (closing_quote_at data) [0..<length data] of
        None \<Rightarrow> - 1
      | Some i \<Rightarrow> int i + 1)"

text \<open>
  The reading of the block rule that \<^verbatim>\<open>blockEnd\<close> is compared with: one pass over the buffer
  from its first byte that keeps, after each byte, whether the scan is inside a quoted
  string, whether an odd number of consecutive backslashes ends there (so that a quote
  that follows is escaped), and the nesting depth, which only the opening and closing
  bytes outside strings change. A block closes at a closing byte outside strings after
  which the depth is zero; the end of the block is the index after the first such byte.
\<close>

record scan =
  in_string :: bool
  escaped :: bool
  depth :: int

definition scan_step :: "char \<Rightarrow> char \<Rightarrow> scan \<Rightarrow> char \<Rightarrow> scan" where
  "scan_step openSym closeSym s c =
     (if in_string s
      then (if c = dquote \<and> \<not> escaped s
            then \<lparr>in_string = False, escaped = False, depth = depth s\<rparr>
            else \<lparr>in_string = True, escaped = (c = bslash \<and> \<not> escaped s), depth = depth s\<rparr>)
      else if c = dquote then \<lparr>in_string = True, escaped = False, depth = depth s\<rparr>
      else if c = openSym then \<lparr>in_string = False, escaped = False, depth = depth s + 1\<rparr>
      else if c = closeSym then \<lparr>in_string = False, escaped = False, depth = depth s - 1\<rparr>
      else \<lparr>in_string = False, escaped = False, depth = depth s\<rparr>)"

fun scan_state :: "char \<Rightarrow> char \<Rightarrow> string \<Rightarrow> nat \<Rightarrow> scan" where
  "scan_state openSym closeSym data 0 = \<lparr>in_string = False, escaped = False, depth = 0\<rparr>"
| "scan_state openSym closeSym data (Suc k) =
     scan_step openSym closeSym (scan_state openSym closeSym data k) (data ! k)"

declare scan_state.simps(2) [simp del]

definition closing_bracket_at :: "char \<Rightarrow> char \<Rightarrow> string \<Rightarrow> nat \<Rightarrow> bool" where
  "closing_bracket_at openSym closeSym data k \<longleftrightarrow>
     data ! k = closeSym \<and> \<not> in_string (scan_state openSym closeSym data k) \<and>
     depth (scan_state openSym closeSym data (Suc k)) = 0"

definition blockEnd_spec :: "string \<Rightarrow> char \<Rightarrow> char \<Rightarrow> int" where
  "blockEnd_spec data openSym closeSym =
     (case find (closing_bracket_at openSym closeSym data) [0..<length data] of
        None \<Rightarrow> - 1
      | Some k \<Rightarrow> int k + 1)"

section \<open>Array iteration on concrete buffers\<close>

text \<open>
  C1. On the buffer \<open>[1, 2, 3]\<close> with no key, \<open>ArrayEach\<close> calls the visitor three times, in
  order, with the slices \<open>1\<close>, \<open>2\<close>, \<open>3\<close>, each a \<open>Number\<close>, with the end offsets 2, 5 and 8.
  It does not return \<^verbatim>\<open>nil\<close>: after the last element the separator search runs on the
  rest \<open>]\<close>, finds a byte that is neither whitespace nor a comma, and \<open>ArrayEach\<close> returns
  \<open>MalformedArrayError\<close>.
\<close>

theorem ArrayEach_three_numbers_MalformedArrayError:
  \<open>ArrayEach ''[1, 2, 3]'' [] =
     Some (Return ([(Some ''1'', Number, 2, None), (Some ''2'', Number, 5, None),
                    (Some ''3'', Number, 8, None)], Some MalformedArrayError))\<close>
  by code_simp

lemma ArrayEach_trailing_comma:
  \<open>ArrayEach ''[1,2,3,]'' [] =
     Some (Return ([(Some ''1'', Number, 2, None), (Some ''2'', Number, 4, None),
                    (Some ''3'', Number, 6, None)], None))\<close>
  by code_simp

lemma ArrayEach_double_comma:
  \<open>ArrayEach ''[1,,2]'' [] =
     Some (Return ([(Some ''1'', Number, 2, None)], Some MalformedArrayError))\<close>
  by code_simp

section \<open>The separator search\<close>

lemma nextArrayElement_loop_skip_ws:
  "set ws \<subseteq> whitespace \<Longrightarrow>
   nextArrayElement_loop seenComma i (ws @ cs) =
   nextArrayElement_loop seenComma (i + int (length ws)) cs"
  by (induction ws arbitrary: i) (auto simp: whitespace_def add.assoc)

lemma nextArrayElement_loop_no_comma:
  assumes "CHR '','' \<notin> set pre" "c \<notin> whitespace" "c \<noteq> CHR '',''"
  shows "nextArrayElement_loop False i (pre @ c # rest) = - 1"
  using assms by (induction pre arbitrary: i) (auto simp: whitespace_def)

lemma nextArrayElement_no_comma:
  assumes "CHR '','' \<notin> set pre" "c \<notin> whitespace" "c \<noteq> CHR '',''"
  shows "nextArrayElement (pre @ c # rest) = - 1"
  using nextArrayElement_loop_no_comma [OF assms] by (simp add: nextArrayElement_def)

lemma nextArrayElement_second_comma:
  assumes "set ws \<subseteq> whitespace" "set ws' \<subseteq> whitespace"
  shows "nextArrayElement (ws @ CHR '','' # ws' @ CHR '','' # rest) = - 1"
  using assms by (simp add: nextArrayElement_def nextArrayElement_loop_skip_ws)

text \<open>
  C9. \<open>nextArrayElement\<close> returns \<open>-1\<close> when a byte that is neither whitespace nor a comma
  comes before any comma, and when, after whitespace, one comma and whitespace again, a
  second comma comes. So on \<open>[1,,2]\<close> \<open>ArrayEach\<close> calls the visitor once, for the element
  \<open>1\<close>, and returns \<open>MalformedArrayError\<close>.
\<close>

theorem nextArrayElement_rejects:
  \<open>(CHR '','' \<notin> set pre \<and> c \<notin> whitespace \<and> c \<noteq> CHR '','' \<longrightarrow>
      nextArrayElement (pre @ c # rest) = - 1) \<and>
   (set ws1 \<subseteq> whitespace \<and> set ws2 \<subseteq> whitespace \<longrightarrow>
      nextArrayElement (ws1 @ CHR '','' # ws2 @ CHR '','' # rest') = - 1) \<and>
   ArrayEach ''[1,,2]'' [] =
     Some (Return ([(Some ''1'', Number, 2, None)], Some MalformedArrayError))\<close>
  using nextArrayElement_no_comma [of pre c rest]
    nextArrayElement_second_comma [of ws1 ws2 rest'] ArrayEach_double_comma
  by blast

theorem nextArrayElement_rejects_witness:
  \<open>CHR '','' \<notin> set '' '' \<and> CHR '']'' \<notin> whitespace \<and> CHR '']'' \<noteq> CHR '','' \<and>
   nextArrayElement '' ]'' = - 1 \<and>
   set [CHR 0x0A] \<subseteq> whitespace \<and> set '' '' \<subseteq> whitespace \<and>
   nextArrayElement ([CHR 0x0A] @ '', ,2]'') = - 1\<close>
  using nextArrayElement_rejects
    [of \<open>'' ''\<close> \<open>CHR '']''\<close> \<open>[]\<close> \<open>[CHR 0x0A]\<close> \<open>'' ''\<close> \<open>''2]''\<close>]
  by (simp add: whitespace_def)

section \<open>Path resolution on concrete buffers\<close>

text \<open>
  C8. On \<open>{"a":{"b":1}}\<close> with the key path \<open>a\<close>, \<open>b\<close>, \<open>Get\<close> returns the slice \<open>1\<close>, the
  type \<open>Number\<close>, the offset 11 and no error.
\<close>

theorem Get_nested_path:
  \<open>Get ''{"a":{"b":1}}'' [''a'', ''b''] = Some (Return (Some ''1'', Number, 11, None))\<close>
  by code_simp


lemma Get_key_inside_array_element:
  \<open>Get ''{"a":[{"b":1}]}'' [''a'', ''b''] =
     Some (Return (None, NotExist, - 1, Some KeyPathNotFoundError))\<close>
  by code_simp

lemma Get_42_unterminated:
  \<open>Get ''  42'' [] = Some (Return (None, Unknown, - 1, Some MalformedNumberError))\<close>
  by code_simp

lemma Get_42_terminated:
  assumes "t \<in> token_terminators"
  shows \<open>Get (''  42'' @ t # rest) [] = Some (Return (Some ''42'', Number, 4, None))\<close>
  using assms
  by (auto simp: token_terminators_def Get_def nextToken_def slice_from_def GetValue_def
      tokenEnd_def slice_range_def)

text \<open>
  C3, as the claim states it, fails: on the four bytes \<open>  42\<close> with no key, \<open>Get\<close> does not
  return the slice \<open>42\<close>, the type \<open>Number\<close> and the offset 4.
\<close>

theorem Get_42_unterminated_counterexample:
  \<open>Get ''  42'' [] \<noteq> Some (Return (Some ''42'', Number, 4, None))\<close>
  by code_simp

text \<open>
  C3, amended. On the four bytes \<open>  42\<close> with no key, \<open>Get\<close> returns a \<^verbatim>\<open>nil\<close> slice, the type
  \<open>Unknown\<close>, the offset \<open>-1\<close> and \<open>MalformedNumberError\<close>: no token terminator follows the
  number. When a token terminator follows the four bytes, whatever comes after it, \<open>Get\<close>
  returns the slice \<open>42\<close>, the type \<open>Number\<close>, the offset 4 and no error.
\<close>

theorem Get_42_needs_terminator:
  \<open>Get ''  42'' [] = Some (Return (None, Unknown, - 1, Some MalformedNumberError)) \<and>
   (t \<in> token_terminators \<longrightarrow>
      Get (''  42'' @ t # rest) [] = Some (Return (Some ''42'', Number, 4, None)))\<close>
  using Get_42_unterminated Get_42_terminated [of t rest] by blast

theorem Get_42_needs_terminator_witness:
  \<open>CHR '','' \<in> token_terminators \<and>
   Get ''  42,"x"'' [] = Some (Return (Some ''42'', Number, 4, None))\<close>
  using Get_42_needs_terminator [of \<open>CHR '',''\<close> \<open>''"x"''\<close>]
  by (simp add: token_terminators_def)

section \<open>A key search that never returns\<close>

lemma searchKeys_loop_cycle:
  assumes run: \<open>searchKeys_loop d k kl l i = Some y\<close>
  shows \<open>\<not> (d = ''{"a":[1,2'' \<and> k = [''b''] \<and> kl = 0 \<and> l = 1 \<and> (i = 4 \<or> i = 5))\<close>
proof (rule searchKeys_loop.raw_induct
    [where P = \<open>\<lambda>d k kl l i y.
        \<not> (d = ''{"a":[1,2'' \<and> k = [''b''] \<and> kl = 0 \<and> l = 1 \<and> (i = 4 \<or> i = 5))\<close>,
      OF _ run], goal_cases)
  case (1 f d k kl l i y)
  note IH = "1"(1) and body = "1"(2)
  show ?case
  proof
    assume a: \<open>d = ''{"a":[1,2'' \<and> k = [''b''] \<and> kl = 0 \<and> l = 1 \<and> (i = 4 \<or> i = 5)\<close>
    then consider (colon) \<open>i = 4\<close> | (bracket) \<open>i = 5\<close> by auto
    then show False
    proof cases
      case colon
      with a body have \<open>f d k kl l 5 = Some y\<close> by simp
      from IH [OF this] a show False by simp
    next
      case bracket
      have b: \<open>blockEnd ''[1,2'' (CHR ''['') (CHR '']'') = - 1\<close>
        by (simp add: blockEnd_def blockEnd_loop.simps)
      from bracket a body b have \<open>f d k kl l 4 = Some y\<close> by (simp add: slice_from_def)
      from IH [OF this] a show False by simp
    qed
  qed
qed

lemma searchKeys_truncated_prefix:
  \<open>searchKeys ''{"a":[1,2'' [''b''] = searchKeys_loop ''{"a":[1,2'' [''b''] 0 1 5\<close>
  apply (simp add: searchKeys_def)
  apply (subst searchKeys_loop.simps, simp)
  apply (subst searchKeys_loop.simps,
      simp add: stringEnd_def stringEnd_loop.simps stringEnd_back.simps nextToken_def
        slice_from_def slice_range_def)
  done

lemma searchKeys_truncated_None: \<open>searchKeys ''{"a":[1,2'' [''b''] = None\<close>
proof (cases \<open>searchKeys_loop ''{"a":[1,2'' [''b''] 0 1 5\<close>)
  case None
  with searchKeys_truncated_prefix show ?thesis by simp
next
  case (Some y)
  from searchKeys_loop_cycle [OF this] show ?thesis by simp
qed

lemma searchKeys_lone_bracket_panics: \<open>searchKeys ''['' [''a''] = Some Panic\<close>
  by code_simp

text \<open>
  C2. \<open>searchKeys\<close> does not return on every buffer. On the truncated buffer \<open>{"a":[1,2\<close>
  with the key path \<open>b\<close>, the key \<open>a\<close> is passed over and the search reaches the \<open>[\<close> at
  index 5 with \<open>level = 1\<close>. There \<open>blockEnd\<close> returns \<open>-1\<close>, which the source adds to \<open>i\<close>
  unchecked: \<^verbatim>\<open>i += arraySkip - 1\<close> and \<^verbatim>\<open>i++\<close> leave \<open>i = 4\<close>, the \<open>:\<close>, and the next
  iteration is at index 5 again, in the same state. The run never ends (\<open>None\<close>), and
  neither does \<open>Get\<close>, which calls it.
\<close>

theorem searchKeys_unterminated_array_never_returns:
  \<open>searchKeys ''{"a":[1,2'' [''b''] = None \<and> Get ''{"a":[1,2'' [''b''] = None\<close>
  using searchKeys_truncated_None by (simp add: Get_def)

section \<open>Buffers of whitespace\<close>

lemma nextToken_loop_whitespace:
  "set data \<subseteq> whitespace \<Longrightarrow> nextToken_loop i data = - 1"
  by (induction data arbitrary: i) (auto simp: whitespace_def)

text \<open>
  C10. On a buffer that is empty or holds whitespace bytes only, \<open>Get\<close> with no key returns
  a \<^verbatim>\<open>nil\<close> slice, the type \<open>Unknown\<close>, the offset \<open>-1\<close> and an error made in place by
  \<^verbatim>\<open>errors.New("Malformed JSON error")\<close>, which is none of the package's error variables.
\<close>

theorem Get_whitespace_only:
  assumes "set data \<subseteq> whitespace"
  shows "Get data [] =
           Some (Return (None, Unknown, - 1, Some (ErrorsNew ''Malformed JSON error''))) \<and>
         ErrorsNew ''Malformed JSON error'' \<notin>
           {KeyPathNotFoundError, UnknownValueTypeError, MalformedJsonError,
            MalformedStringError, MalformedArrayError, MalformedObjectError,
            MalformedNumberError, MalformedLiteralError, ExpectedArrayError}"
  using nextToken_loop_whitespace [OF assms, of 0]
  by (simp add: Get_def nextToken_def slice_from_def)

theorem Get_whitespace_only_witness:
  "set [] \<subseteq> whitespace \<and> set [CHR '' '', CHR 0x0A, CHR 0x0D, CHR 0x09] \<subseteq> whitespace \<and>
   Get [] [] = Some (Return (None, Unknown, - 1, Some (ErrorsNew ''Malformed JSON error''))) \<and>
   Get [CHR '' '', CHR 0x0A, CHR 0x0D, CHR 0x09] [] =
     Some (Return (None, Unknown, - 1, Some (ErrorsNew ''Malformed JSON error'')))"
  using Get_whitespace_only [of "[]"]
    Get_whitespace_only [of "[CHR '' '', CHR 0x0A, CHR 0x0D, CHR 0x09]"]
  by (simp add: whitespace_def)

section \<open>Tokens and literals\<close>

lemma tokenEnd_loop_takeWhile:
  "tokenEnd_loop i cs =
     (if \<exists>c\<in>set cs. c \<in> token_terminators
      then i + int (length (takeWhile (\<lambda>c. c \<notin> token_terminators) cs)) else - 1)"
  by (induction cs arbitrary: i) (auto simp: token_terminators_def)

lemma tokenEnd_takeWhile:
  "tokenEnd data =
     (if set data \<inter> token_terminators = {} then - 1
      else int (length (takeWhile (\<lambda>c. c \<notin> token_terminators) data)))"
  by (auto simp: tokenEnd_def tokenEnd_loop_takeWhile)

lemma slice_range_token:
  "set data \<inter> token_terminators \<noteq> {} \<Longrightarrow> slice_range data 0 (tokenEnd data) = token data"
  by (simp add: tokenEnd_takeWhile slice_range_def token_def takeWhile_eq_take [symmetric])

lemma GetValue_literal_branch:
  assumes "data \<noteq> []" and "data ! 0 \<in> {CHR ''t'', CHR ''f'', CHR ''n''}"
  shows "GetValue data =
           (let tokenLen = tokenEnd data in
            if tokenLen = - 1
            then (None, Unknown, - 1, Some MalformedLiteralError)
            else (let v = slice_range data 0 tokenLen in
                  if v = ''null'' then (None, Null, tokenLen, None)
                  else if v = ''true'' \<or> v = ''false''
                  then (Some v, Boolean, tokenLen, None)
                  else (None, Unknown, - 1, Some UnknownValueTypeError)))"
proof -
  from assms(2) consider "data ! 0 = CHR ''t''" | "data ! 0 = CHR ''f''" | "data ! 0 = CHR ''n''"
    by blast
  then show ?thesis
    using assms(1) by cases (simp_all add: GetValue_def)
qed

lemma GetValue_literal_token:
  assumes "data \<noteq> []" and "data ! 0 \<in> {CHR ''t'', CHR ''f'', CHR ''n''}"
  shows "GetValue data =
           (if set data \<inter> token_terminators = {}
            then (None, Unknown, - 1, Some MalformedLiteralError)
            else if token data = ''null''
            then (None, Null, int (length (token data)), None)
            else if token data = ''true'' \<or> token data = ''false''
            then (Some (token data), Boolean, int (length (token data)), None)
            else (None, Unknown, - 1, Some UnknownValueTypeError))"
proof (cases "set data \<inter> token_terminators = {}")
  case True
  then show ?thesis
    by (simp add: GetValue_literal_branch [OF assms] tokenEnd_takeWhile)
next
  case False
  from False have te: "tokenEnd data = int (length (token data))"
    by (simp add: tokenEnd_takeWhile token_def)
  from False slice_range_token [OF False] show ?thesis
    by (simp add: GetValue_literal_branch [OF assms] te Let_def)
qed

text \<open>
  C7. For a buffer that starts with \<open>t\<close>, \<open>f\<close> or \<open>n\<close>: with no token terminator in the
  buffer, \<open>GetValue\<close> returns \<open>MalformedLiteralError\<close>; otherwise the token is the bytes
  before the first terminator, and \<open>GetValue\<close> returns the type \<open>Null\<close> with a \<^verbatim>\<open>nil\<close> slice
  for the token \<open>null\<close>, the type \<open>Boolean\<close> with the token as slice for \<open>true\<close> and
  \<open>false\<close>, both with the length of the token as offset, and \<open>UnknownValueTypeError\<close> for
  any other token.
\<close>

theorem GetValue_literal:
  assumes "data \<noteq> []" and "data ! 0 \<in> {CHR ''t'', CHR ''f'', CHR ''n''}"
  shows "GetValue data =
           (if set data \<inter> token_terminators = {}
            then (None, Unknown, - 1, Some MalformedLiteralError)
            else if token data = ''null''
            then (None, Null, int (length (token data)), None)
            else if token data = ''true'' \<or> token data = ''false''
            then (Some (token data), Boolean, int (length (token data)), None)
            else (None, Unknown, - 1, Some UnknownValueTypeError))"
  using GetValue_literal_token [OF assms] .

theorem GetValue_literal_witness:
  \<open>''null,'' \<noteq> [] \<and> ''null,'' ! 0 \<in> {CHR ''t'', CHR ''f'', CHR ''n''} \<and>
   GetValue ''null,'' = (None, Null, 4, None) \<and>
   GetValue ''true}'' = (Some ''true'', Boolean, 4, None) \<and>
   GetValue ''false ]'' = (Some ''false'', Boolean, 5, None) \<and>
   GetValue ''nul,'' = (None, Unknown, - 1, Some UnknownValueTypeError) \<and>
   GetValue ''true'' = (None, Unknown, - 1, Some MalformedLiteralError)\<close>
  using GetValue_literal [of \<open>''null,''\<close>] GetValue_literal [of \<open>''true}''\<close>]
    GetValue_literal [of \<open>''false ]''\<close>] GetValue_literal [of \<open>''nul,''\<close>]
    GetValue_literal [of \<open>''true''\<close>]
  by (simp add: token_def token_terminators_def)

section \<open>The end of a string\<close>

lemma backslashes_before_0: "backslashes_before data 0 = 0"
  by (simp add: backslashes_before_def)

lemma backslashes_before_Suc:
  "m < length data \<Longrightarrow>
   backslashes_before data (Suc m) =
     (if data ! m = bslash then Suc (backslashes_before data m) else 0)"
  by (simp add: backslashes_before_def take_Suc_conv_app_nth)

lemma stringEnd_back_even:
  "k \<le> length data \<Longrightarrow> stringEnd_back data (int k - 1) \<longleftrightarrow> even (backslashes_before data k)"
proof (induction k rule: less_induct)
  case (less k)
  note unfold = stringEnd_back.simps [of data "int k - 1"]
  show ?case
  proof (cases k)
    case 0
    with unfold show ?thesis by (simp add: backslashes_before_0)
  next
    case (Suc m)
    with less.prems have m: "m < length data" by simp
    have idx: "nat (int k - 1) = m" using Suc by simp
    show ?thesis
    proof (cases "data ! m = bslash")
      case False
      with unfold idx Suc m show ?thesis by (simp add: backslashes_before_Suc)
    next
      case bs: True
      show ?thesis
      proof (cases m)
        case 0
        with unfold idx Suc m bs show ?thesis
          by (simp add: backslashes_before_Suc backslashes_before_0)
      next
        case (Suc n)
        with m have n: "n < length data" by simp
        have idx': "nat (int k - 1 - 1) = n" using Suc \<open>k = Suc m\<close> by simp
        show ?thesis
        proof (cases "data ! n = bslash")
          case False
          with unfold idx idx' Suc \<open>k = Suc m\<close> m n bs show ?thesis
            by (simp add: backslashes_before_Suc)
        next
          case True
          have "stringEnd_back data (int k - 1) = stringEnd_back data (int n - 1)"
            using unfold idx idx' Suc \<open>k = Suc m\<close> bs True by simp
          also have "\<dots> \<longleftrightarrow> even (backslashes_before data n)"
            using less.IH [of n] Suc \<open>k = Suc m\<close> n by simp
          also have "\<dots> \<longleftrightarrow> even (backslashes_before data k)"
            using Suc \<open>k = Suc m\<close> m n bs True by (simp add: backslashes_before_Suc)
          finally show ?thesis .
        qed
      qed
    qed
  qed
qed

lemma stringEnd_loop_find:
  "n \<le> length data \<Longrightarrow>
   stringEnd_loop data (int n) =
     (case find (closing_quote_at data) [n..<length data] of
        None \<Rightarrow> - 1
      | Some i \<Rightarrow> int i + 1)"
proof (induction "length data - n" arbitrary: n)
  case 0
  then have "n = length data" by simp
  then show ?case by (simp add: stringEnd_loop.simps [of data "int (length data)"])
next
  case (Suc d)
  then have n: "n < length data" by simp
  then have upt: "[n..<length data] = n # [Suc n..<length data]" by (simp add: upt_conv_Cons)
  have "d = length data - Suc n" and "Suc n \<le> length data" using Suc.hyps(2) by simp_all
  from Suc.hyps(1) [OF this] have IH: "stringEnd_loop data (int (Suc n)) =
     (case find (closing_quote_at data) [Suc n..<length data] of
        None \<Rightarrow> - 1 | Some i \<Rightarrow> int i + 1)" .
  have even_bs: "stringEnd_back data (int n - 1) \<longleftrightarrow> even (backslashes_before data n)"
    using stringEnd_back_even [of n data] n by simp
  have step: "int n + 1 = int (Suc n)" by simp
  show ?case
    using n IH even_bs
    by (simp add: stringEnd_loop.simps [of data "int n"] upt closing_quote_at_def step
        del: of_nat_Suc)
qed

lemma stringEnd_eq_spec: "stringEnd data = stringEnd_spec data"
  using stringEnd_loop_find [of 0 data] by (simp add: stringEnd_def stringEnd_spec_def)


lemma stringEnd_first:
  assumes "i < length data" "closing_quote_at data i" "\<forall>j\<in>{..<i}. \<not> closing_quote_at data j"
  shows "stringEnd data = int i + 1"
proof -
  have "find (closing_quote_at data) [0..<length data] = Some i"
    using assms by (auto simp: find_Some_iff intro!: exI [of _ i])
  then show ?thesis by (simp add: stringEnd_eq_spec stringEnd_spec_def)
qed

lemma stringEnd_none:
  assumes "\<forall>j\<in>{..<length data}. \<not> closing_quote_at data j"
  shows "stringEnd data = - 1"
proof -
  have "find (closing_quote_at data) [0..<length data] = None"
    using assms by (auto simp: find_None_iff)
  then show ?thesis by (simp add: stringEnd_eq_spec stringEnd_spec_def)
qed

lemma stringEnd_backslashes_0: \<open>stringEnd (''ab'' @ [dquote] @ ''c'') = 3\<close>
  by code_simp

lemma stringEnd_backslashes_1:
  \<open>stringEnd (''ab'' @ [bslash, dquote] @ ''c'' @ [dquote]) = 6\<close>
  by code_simp

lemma stringEnd_backslashes_2:
  \<open>stringEnd (''ab'' @ [bslash, bslash, dquote] @ ''c'' @ [dquote]) = 5\<close>
  by code_simp

lemma stringEnd_backslashes_3:
  \<open>stringEnd (''ab'' @ [bslash, bslash, bslash, dquote] @ ''c'' @ [dquote]) = 8\<close>
  by code_simp

lemma stringEnd_escaped_only: \<open>stringEnd (''ab'' @ [bslash, dquote]) = - 1\<close>
  by code_simp

text \<open>
  C4. \<open>stringEnd\<close> returns one more than the index of the first \<open>"\<close> that has an even number
  (zero included) of consecutive backslashes just before it, passing over each \<open>"\<close> that has
  an odd number, and \<open>-1\<close> when the buffer has no such quote. With \<open>ab\<close> in front, a quote
  after no backslash or after two ends the string, a quote after one or after three does
  not, and the scan goes on to the next quote.
\<close>

theorem stringEnd_first_unescaped_quote:
  \<open>stringEnd data = stringEnd_spec data \<and>
   (i < length data \<and> closing_quote_at data i \<and> (\<forall>j\<in>{..<i}. \<not> closing_quote_at data j) \<longrightarrow>
      stringEnd data = int i + 1) \<and>
   ((\<forall>j\<in>{..<length data}. \<not> closing_quote_at data j) \<longrightarrow> stringEnd data = - 1) \<and>
   stringEnd (''ab'' @ [dquote] @ ''c'') = 3 \<and>
   stringEnd (''ab'' @ [bslash, dquote] @ ''c'' @ [dquote]) = 6 \<and>
   stringEnd (''ab'' @ [bslash, bslash, dquote] @ ''c'' @ [dquote]) = 5 \<and>
   stringEnd (''ab'' @ [bslash, bslash, bslash, dquote] @ ''c'' @ [dquote]) = 8 \<and>
   stringEnd (''ab'' @ [bslash, dquote]) = - 1\<close>
  using stringEnd_eq_spec [of data] stringEnd_first [of i data] stringEnd_none [of data]
    stringEnd_backslashes_0 stringEnd_backslashes_1 stringEnd_backslashes_2
    stringEnd_backslashes_3 stringEnd_escaped_only
  by blast

theorem stringEnd_first_unescaped_quote_witness:
  \<open>4 < length [CHR ''a'', bslash, dquote, CHR ''b'', dquote] \<and>
   closing_quote_at [CHR ''a'', bslash, dquote, CHR ''b'', dquote] 4 \<and>
   stringEnd [CHR ''a'', bslash, dquote, CHR ''b'', dquote] = 5 \<and>
   stringEnd [bslash, dquote] = - 1\<close>
proof -
  have h1: \<open>4 < length [CHR ''a'', bslash, dquote, CHR ''b'', dquote] \<and>
    closing_quote_at [CHR ''a'', bslash, dquote, CHR ''b'', dquote] 4 \<and>
    (\<forall>j\<in>{..<4}. \<not> closing_quote_at [CHR ''a'', bslash, dquote, CHR ''b'', dquote] j)\<close>
    by code_simp
  have h2: \<open>\<forall>j\<in>{..<length [bslash, dquote]}. \<not> closing_quote_at [bslash, dquote] j\<close>
    by code_simp
  from stringEnd_first_unescaped_quote [of \<open>[CHR ''a'', bslash, dquote, CHR ''b'', dquote]\<close> 4] h1
  have \<open>stringEnd [CHR ''a'', bslash, dquote, CHR ''b'', dquote] = int 4 + 1\<close> by blast
  moreover from stringEnd_first_unescaped_quote [of \<open>[bslash, dquote]\<close> 0] h2
  have \<open>stringEnd [bslash, dquote] = - 1\<close> by blast
  ultimately show ?thesis using h1 h2 by simp
qed

section \<open>The end of a block\<close>

lemma find_skip_prefix: "\<forall>x\<in>set xs. \<not> P x \<Longrightarrow> find P (xs @ ys) = find P ys"
  by (induction xs) auto

lemma scan_step_in_string:
  "scan_step openSym closeSym \<lparr>in_string = True, escaped = e, depth = d\<rparr> c =
     (if c = dquote \<and> \<not> e then \<lparr>in_string = False, escaped = False, depth = d\<rparr>
      else \<lparr>in_string = True, escaped = (c = bslash \<and> \<not> e), depth = d\<rparr>)"
  by (simp add: scan_step_def)

lemma scan_step_outside:
  "scan_step openSym closeSym \<lparr>in_string = False, escaped = e, depth = d\<rparr> c =
     (if c = dquote then \<lparr>in_string = True, escaped = False, depth = d\<rparr>
      else if c = openSym then \<lparr>in_string = False, escaped = False, depth = d + 1\<rparr>
      else if c = closeSym then \<lparr>in_string = False, escaped = False, depth = d - 1\<rparr>
      else \<lparr>in_string = False, escaped = False, depth = d\<rparr>)"
  by (simp add: scan_step_def)

lemma scan_inside_string:
  assumes start: "scan_state openSym closeSym data (Suc i) =
                    \<lparr>in_string = True, escaped = False, depth = d\<rparr>"
    and j: "j \<le> length (drop (Suc i) data)"
    and none: "\<forall>j'<j. \<not> closing_quote_at (drop (Suc i) data) j'"
  shows "scan_state openSym closeSym data (Suc i + j) =
           \<lparr>in_string = True, escaped = odd (backslashes_before (drop (Suc i) data) j),
            depth = d\<rparr>"
  using j none
proof (induction j)
  case 0
  have "Suc i + 0 = Suc i" by simp
  with start show ?case by (simp only: backslashes_before_0) simp
next
  case (Suc j)
  let ?s = "drop (Suc i) data"
  from Suc.prems have j: "j < length ?s" and noj: "\<not> closing_quote_at ?s j" by simp_all
  from Suc.prems have "j \<le> length ?s" and "\<forall>j'<j. \<not> closing_quote_at ?s j'" by simp_all
  from Suc.IH [OF this] have st: "scan_state openSym closeSym data (Suc i + j) =
      \<lparr>in_string = True, escaped = odd (backslashes_before ?s j), depth = d\<rparr>" .
  from j have nth: "data ! (Suc i + j) = ?s ! j" by simp
  have idx: "Suc i + Suc j = Suc (Suc i + j)" by simp
  have "scan_state openSym closeSym data (Suc i + Suc j) =
          scan_step openSym closeSym (scan_state openSym closeSym data (Suc i + j))
            (data ! (Suc i + j))"
    by (simp only: idx scan_state.simps)
  also have "\<dots> = scan_step openSym closeSym
      \<lparr>in_string = True, escaped = odd (backslashes_before ?s j), depth = d\<rparr> (?s ! j)"
    by (simp only: st nth)
  also have "\<dots> = \<lparr>in_string = True,
                      escaped = (?s ! j = bslash \<and> even (backslashes_before ?s j)),
                      depth = d\<rparr>"
    using noj unfolding scan_step_in_string closing_quote_at_def by auto
  also have "(?s ! j = bslash \<and> even (backslashes_before ?s j)) \<longleftrightarrow>
             odd (backslashes_before ?s (Suc j))"
    unfolding backslashes_before_Suc [OF j] by simp
  finally show ?case .
qed

lemma scan_after_string:
  assumes start: "scan_state openSym closeSym data (Suc i) =
                    \<lparr>in_string = True, escaped = False, depth = d\<rparr>"
    and j: "j < length (drop (Suc i) data)"
    and none: "\<forall>j'<j. \<not> closing_quote_at (drop (Suc i) data) j'"
    and closes: "closing_quote_at (drop (Suc i) data) j"
  shows "scan_state openSym closeSym data (Suc i + Suc j) =
           \<lparr>in_string = False, escaped = False, depth = d\<rparr>"
proof -
  let ?s = "drop (Suc i) data"
  from j have "j \<le> length ?s" by simp
  from scan_inside_string [OF start this none]
  have st: "scan_state openSym closeSym data (Suc i + j) =
      \<lparr>in_string = True, escaped = odd (backslashes_before ?s j), depth = d\<rparr>" .
  from j have nth: "data ! (Suc i + j) = ?s ! j" by simp
  have idx: "Suc i + Suc j = Suc (Suc i + j)" by simp
  have "scan_state openSym closeSym data (Suc i + Suc j) =
          scan_step openSym closeSym (scan_state openSym closeSym data (Suc i + j))
            (data ! (Suc i + j))"
    by (simp only: idx scan_state.simps)
  also have "\<dots> = scan_step openSym closeSym
      \<lparr>in_string = True, escaped = odd (backslashes_before ?s j), depth = d\<rparr> (?s ! j)"
    by (simp only: st nth)
  also have "\<dots> = \<lparr>in_string = False, escaped = False, depth = d\<rparr>"
    using closes unfolding scan_step_in_string closing_quote_at_def by auto
  finally show ?thesis .
qed

lemma stringEnd_absent:
  "stringEnd s = - 1 \<Longrightarrow> \<forall>j<length s. \<not> closing_quote_at s j"
  by (auto simp: stringEnd_eq_spec stringEnd_spec_def find_None_iff split: option.splits)

lemma stringEnd_present:
  assumes "stringEnd s \<noteq> - 1"
  obtains j where "stringEnd s = int j + 1" "j < length s" "closing_quote_at s j"
    "\<forall>j'<j. \<not> closing_quote_at s j'"
proof -
  from assms obtain j where f: "find (closing_quote_at s) [0..<length s] = Some j"
    by (auto simp: stringEnd_eq_spec stringEnd_spec_def split: option.splits)
  then have "j < length s" "closing_quote_at s j" "\<forall>j'<j. \<not> closing_quote_at s j'"
    by (auto simp: find_Some_iff)
  moreover from f have "stringEnd s = int j + 1"
    by (simp add: stringEnd_eq_spec stringEnd_spec_def)
  ultimately show thesis using that by blast
qed


lemma upt_split: "i \<le> m \<Longrightarrow> m \<le> n \<Longrightarrow> [i..<n] = [i..<m] @ [m..<n]"
  using upt_add_eq_append [of i m "n - m"] by simp

lemma blockEnd_loop_find:
  assumes syms: "openSym \<noteq> closeSym" "closeSym \<noteq> dquote"
  shows "i \<le> length data \<Longrightarrow>
         scan_state openSym closeSym data i =
           \<lparr>in_string = False, escaped = False, depth = level\<rparr> \<Longrightarrow>
         blockEnd_loop data openSym closeSym level (int i) =
           (case find (closing_bracket_at openSym closeSym data) [i..<length data] of
              None \<Rightarrow> - 1
            | Some k \<Rightarrow> int k + 1)"
proof (induction "length data - i" arbitrary: i level rule: less_induct)
  case less
  let ?cb = "closing_bracket_at openSym closeSym data"
  let ?res = "\<lambda>xs. case find ?cb xs of None \<Rightarrow> - 1 | Some k \<Rightarrow> int k + 1"
  note unfold = blockEnd_loop.simps [of data openSym closeSym level "int i"]
  note st = less.prems(2)
  show ?case
  proof (cases "i = length data")
    case True
    with unfold show ?thesis by simp
  next
    case False
    with less.prems have i: "i < length data" by simp
    then have upt: "[i..<length data] = i # [Suc i..<length data]"
      by (simp add: upt_conv_Cons)
    have idx: "nat (int i) = i" "int i + 1 = int (Suc i)" by simp_all
    have next_state: "scan_state openSym closeSym data (Suc i) =
        scan_step openSym closeSym \<lparr>in_string = False, escaped = False, depth = level\<rparr>
          (data ! i)"
      by (simp only: scan_state.simps st)
    have IH: "blockEnd_loop data openSym closeSym level' (int (Suc i)) = ?res [Suc i..<length data]"
      if "scan_state openSym closeSym data (Suc i) =
            \<lparr>in_string = False, escaped = False, depth = level'\<rparr>" for level'
      using less.hyps [of "Suc i" level'] i that by simp
    show ?thesis
    proof (cases "data ! i = dquote")
      case quote: True
      let ?s = "drop (Suc i) data"
      have sl: "slice_from data (int i + 1) = ?s"
        by (simp add: slice_from_def nat_add_distrib)
      from quote syms have not_here: "\<not> ?cb i" by (simp add: closing_bracket_at_def)
      from quote next_state have start: "scan_state openSym closeSym data (Suc i) =
          \<lparr>in_string = True, escaped = False, depth = level\<rparr>"
        by (simp add: scan_step_outside)
      show ?thesis
      proof (cases "stringEnd ?s = - 1")
        case True
        have "\<not> ?cb k" if "k \<in> set [Suc i..<length data]" for k
        proof -
          define j where "j = k - Suc i"
          with that have k: "k = Suc i + j" and j: "j < length ?s" by auto
          from stringEnd_absent [OF True] j have "\<forall>j'<j. \<not> closing_quote_at ?s j'" by simp
          from scan_inside_string [OF start _ this] j
          have "in_string (scan_state openSym closeSym data k)" by (simp add: k)
          then show ?thesis by (simp add: closing_bracket_at_def)
        qed
        then have "find ?cb [Suc i..<length data] = None" by (simp add: find_None_iff)
        with not_here upt have "?res [i..<length data] = - 1" by simp
        moreover from True i quote unfold sl have
          "blockEnd_loop data openSym closeSym level (int i) = - 1"
          by (simp add: idx)
        ultimately show ?thesis by simp
      next
        case False
        from stringEnd_present [OF False] obtain j where
          se: "stringEnd ?s = int j + 1" and j: "j < length ?s"
          and closes: "closing_quote_at ?s j" and none: "\<forall>j'<j. \<not> closing_quote_at ?s j'"
          by blast
        let ?m = "Suc i + Suc j"
        from j have m: "?m \<le> length data" by simp
        have inside: "\<not> ?cb k" if "k \<in> set [Suc i..<?m]" for k
        proof -
          define j' where "j' = k - Suc i"
          with that have k: "k = Suc i + j'" and j': "j' \<le> j" by auto
          from j' j have "j' \<le> length ?s" by simp
          moreover from none j' have "\<forall>j''<j'. \<not> closing_quote_at ?s j''" by simp
          ultimately have "in_string (scan_state openSym closeSym data k)"
            using scan_inside_string [OF start] by (simp add: k)
          then show ?thesis by (simp add: closing_bracket_at_def)
        qed
        have "[Suc i..<length data] = [Suc i..<?m] @ [?m..<length data]"
          using m by (intro upt_split) simp_all
        with inside have "find ?cb [Suc i..<length data] = find ?cb [?m..<length data]"
          by (simp add: find_skip_prefix)
        with not_here upt have res: "?res [i..<length data] = ?res [?m..<length data]"
          by simp
        from scan_after_string [OF start j none closes]
        have "scan_state openSym closeSym data ?m =
            \<lparr>in_string = False, escaped = False, depth = level\<rparr>" .
        from less.hyps [OF _ m this] i
        have "blockEnd_loop data openSym closeSym level (int ?m) = ?res [?m..<length data]"
          by simp
        moreover have "int i + stringEnd ?s + 1 = int ?m" by (simp add: se)
        moreover from False i quote unfold sl have
          "blockEnd_loop data openSym closeSym level (int i) =
           blockEnd_loop data openSym closeSym level (int i + stringEnd ?s + 1)"
          by (simp add: idx Let_def)
        ultimately show ?thesis using res by simp
      qed
    next
      case nq: False
      show ?thesis
      proof (cases "data ! i = openSym")
        case True
        with syms have not_here: "\<not> ?cb i" by (simp add: closing_bracket_at_def)
        from True nq next_state have "scan_state openSym closeSym data (Suc i) =
            \<lparr>in_string = False, escaped = False, depth = level + 1\<rparr>"
          by (simp add: scan_step_outside)
        from IH [OF this] not_here upt True nq i unfold show ?thesis
          by (simp add: idx)
      next
        case no: False
        show ?thesis
        proof (cases "data ! i = closeSym")
          case True
          from True nq no next_state have nxt: "scan_state openSym closeSym data (Suc i) =
              \<lparr>in_string = False, escaped = False, depth = level - 1\<rparr>"
            by (simp add: scan_step_outside)
          from True st nxt have here: "?cb i \<longleftrightarrow> level - 1 = 0"
            by (simp add: closing_bracket_at_def)
          show ?thesis
          proof (cases "level - 1 = 0")
            case True
            with here upt \<open>data ! i = closeSym\<close> nq no i unfold show ?thesis
              by (simp add: idx)
          next
            case False
            with IH [OF nxt] here upt True nq no i unfold show ?thesis
              by (simp add: idx)
          qed
        next
          case False
          then have not_here: "\<not> ?cb i" by (simp add: closing_bracket_at_def)
          from False nq no next_state have "scan_state openSym closeSym data (Suc i) =
              \<lparr>in_string = False, escaped = False, depth = level\<rparr>"
            by (simp add: scan_step_outside)
          from IH [OF this] not_here upt False nq no i unfold show ?thesis
            by (simp add: idx)
        qed
      qed
    qed
  qed
qed

lemma blockEnd_eq_spec:
  assumes "openSym \<noteq> closeSym" "closeSym \<noteq> dquote"
  shows "blockEnd data openSym closeSym = blockEnd_spec data openSym closeSym"
  using blockEnd_loop_find [OF assms, of 0 data 0]
  by (simp add: blockEnd_def blockEnd_spec_def)

section \<open>Where the offset of a value lands\<close>

lemma stringEnd_closing_quote:
  assumes "stringEnd data \<noteq> - 1"
  shows "1 \<le> stringEnd data \<and> stringEnd data \<le> int (length data) \<and>
         data ! nat (stringEnd data - 1) = dquote"
proof -
  from assms obtain i where f: "find (closing_quote_at data) [0..<length data] = Some i"
    by (auto simp: stringEnd_eq_spec stringEnd_spec_def split: option.splits)
  then have "i < length data" "closing_quote_at data i"
    by (auto simp: find_Some_iff)
  with f show ?thesis
    by (simp add: stringEnd_eq_spec stringEnd_spec_def closing_quote_at_def)
qed

lemma token_terminated:
  assumes "set data \<inter> token_terminators \<noteq> {}"
  shows "length (token data) < length data \<and> data ! length (token data) \<in> token_terminators"
proof -
  have "token data \<noteq> data"
    using assms by (auto simp: token_def takeWhile_eq_all_conv)
  moreover have "length (token data) \<le> length data"
    by (simp add: token_def length_takeWhile_le)
  moreover have "token data = take (length (token data)) data"
    unfolding token_def by (rule takeWhile_eq_take)
  ultimately have lt: "length (token data) < length data"
    by (metis le_neq_implies_less take_all_iff order_refl)
  with nth_length_takeWhile [of "\<lambda>c. c \<notin> token_terminators" data]
  show ?thesis by (simp add: token_def)
qed

lemma GetValue_string_branch:
  assumes "data \<noteq> []" and "data ! 0 = dquote"
  shows "GetValue data =
           (let strEndQuoteOffMinus1 = stringEnd (slice_from data 1) in
            if strEndQuoteOffMinus1 = - 1
            then (None, Unknown, - 1, Some MalformedStringError)
            else (Some (slice_range data 1 strEndQuoteOffMinus1), String,
                  strEndQuoteOffMinus1 + 1, None))"
  using assms by (simp add: GetValue_def)

lemma GetValue_array_branch:
  assumes "data \<noteq> []" and "data ! 0 = CHR ''[''"
  shows "GetValue data =
           (let blockLen = blockEnd data (CHR ''['') (CHR '']'') in
            if blockLen = - 1
            then (None, Unknown, - 1, Some MalformedArrayError)
            else (Some (slice_range data 0 blockLen), Array, blockLen, None))"
  using assms by (simp add: GetValue_def)

lemma GetValue_object_branch:
  assumes "data \<noteq> []" and "data ! 0 = CHR ''{''"
  shows "GetValue data =
           (let blockLen = blockEnd data (CHR ''{'') (CHR ''}'') in
            if blockLen = - 1
            then (None, Unknown, - 1, Some MalformedObjectError)
            else (Some (slice_range data 0 blockLen), Object, blockLen, None))"
  using assms by (simp add: GetValue_def)

lemma GetValue_number_branch:
  assumes "data \<noteq> []" and "data ! 0 \<in> set ''0123456789-''"
  shows "GetValue data =
           (let tokenLen = tokenEnd data in
            if tokenLen = - 1
            then (None, Unknown, - 1, Some MalformedNumberError)
            else (Some (slice_range data 0 tokenLen), Number, tokenLen, None))"
proof -
  from assms(2) have "data ! 0 \<noteq> dquote" "data ! 0 \<noteq> CHR ''[''" "data ! 0 \<noteq> CHR ''{''"
    "data ! 0 \<notin> {CHR ''t'', CHR ''f'', CHR ''n''}"
    by auto
  with assms show ?thesis by (simp add: GetValue_def)
qed

lemma GetValue_other_branch:
  assumes "data = [] \<or> (data ! 0 \<noteq> dquote \<and> data ! 0 \<noteq> CHR ''['' \<and> data ! 0 \<noteq> CHR ''{'' \<and>
      data ! 0 \<notin> {CHR ''t'', CHR ''f'', CHR ''n''} \<and> data ! 0 \<notin> set ''0123456789-'')"
  shows "\<exists>e. GetValue data = (None, Unknown, - 1, Some e)"
  using assms by (auto simp: GetValue_def)


lemma GetValue_string_offset:
  assumes "data \<noteq> []" and "data ! 0 = dquote"
    and "GetValue data = (value, dataType, offset, None)"
  shows "dataType = String \<and> value = Some (slice_range data 1 (offset - 1)) \<and>
         2 \<le> offset \<and> offset \<le> int (length data) \<and> data ! nat (offset - 1) = dquote \<and>
         offset = stringEnd_spec (slice_from data 1) + 1 \<and>
         closing_quote_at (slice_from data 1) (nat (offset - 2))"
proof -
  let ?se = "stringEnd (slice_from data 1)"
  from assms have ne: "?se \<noteq> - 1"
    by (auto simp: GetValue_string_branch Let_def split: if_splits)
  with assms have res: "dataType = String" "value = Some (slice_range data 1 ?se)"
    "offset = ?se + 1"
    by (auto simp: GetValue_string_branch Let_def)
  from assms(1) have len: "int (length (slice_from data 1)) = int (length data) - 1"
    by (cases data) (simp_all add: slice_from_def)
  from stringEnd_closing_quote [OF ne] len
  have se: "1 \<le> ?se" "?se \<le> int (length data) - 1" "drop 1 data ! nat (?se - 1) = dquote"
    by (simp_all add: slice_from_def)
  from se have nth: "drop 1 data ! nat (?se - 1) = data ! nat ?se"
    by (simp add: nat_diff_distrib)
  from stringEnd_present [OF ne] obtain j where
    j: "?se = int j + 1" "closing_quote_at (slice_from data 1) j"
    by blast
  have off: "nat (?se + 1 - 2) = j" "nat (?se + 1 - 1) = nat ?se" "?se + 1 - 1 = ?se"
    using j(1) by simp_all
  have spec: "?se = stringEnd_spec (slice_from data 1)" by (rule stringEnd_eq_spec)
  have "2 \<le> ?se + 1" "?se + 1 \<le> int (length data)" using se by simp_all
  moreover have "data ! nat (?se + 1 - 1) = dquote" using se(3) nth off by simp
  moreover have "closing_quote_at (slice_from data 1) (nat (?se + 1 - 2))"
    using j(2) off by simp
  moreover have "value = Some (slice_range data 1 (?se + 1 - 1))"
    using res(2) off by simp
  moreover have "?se + 1 = stringEnd_spec (slice_from data 1) + 1" using spec by simp
  ultimately show ?thesis unfolding res(3) using res(1) by blast
qed

lemma blockEnd_spec_closing:
  assumes "blockEnd_spec data openSym closeSym \<noteq> - 1"
  shows "closing_bracket_at openSym closeSym data
           (nat (blockEnd_spec data openSym closeSym - 1))"
proof -
  from assms obtain k where
    f: "find (closing_bracket_at openSym closeSym data) [0..<length data] = Some k"
    by (auto simp: blockEnd_spec_def split: option.splits)
  then have "closing_bracket_at openSym closeSym data k" by (auto simp: find_Some_iff)
  with f show ?thesis by (simp add: blockEnd_spec_def)
qed

lemma GetValue_block_offset:
  assumes "data \<noteq> []" and "data ! 0 = openSym" and "openSym \<noteq> closeSym"
    and "closeSym \<noteq> dquote" and "blockEnd data openSym closeSym \<noteq> - 1"
  shows "2 \<le> blockEnd data openSym closeSym \<and>
         blockEnd data openSym closeSym \<le> int (length data) \<and>
         data ! nat (blockEnd data openSym closeSym - 1) = closeSym \<and>
         blockEnd data openSym closeSym = blockEnd_spec data openSym closeSym \<and>
         closing_bracket_at openSym closeSym data (nat (blockEnd data openSym closeSym - 1))"
proof -
  let ?r = "blockEnd data openSym closeSym"
  from blockEnd_loop_range [of data openSym closeSym 0 0] assms(5)
  have r: "0 < ?r" "?r \<le> int (length data)" "data ! nat (?r - 1) = closeSym"
    by (simp_all add: blockEnd_def)
  have "?r \<noteq> 1"
  proof
    assume "?r = 1"
    with r(3) assms(2,3) show False by simp
  qed
  with r(1) have two: "2 \<le> ?r" by simp
  note eq = blockEnd_eq_spec [OF assms(3,4), of data]
  from assms(5) eq have "blockEnd_spec data openSym closeSym \<noteq> - 1"
    by metis
  from blockEnd_spec_closing [OF this]
  have "closing_bracket_at openSym closeSym data (nat (?r - 1))"
    by (simp only: eq [symmetric])
  with two r(2,3) eq show ?thesis by blast
qed

lemma GetValue_array_offset:
  assumes "data \<noteq> []" and "data ! 0 = CHR ''[''"
    and "GetValue data = (value, dataType, offset, None)"
  shows "dataType = Array \<and> value = Some (slice_range data 0 offset) \<and>
         2 \<le> offset \<and> offset \<le> int (length data) \<and> data ! nat (offset - 1) = CHR '']'' \<and>
         offset = blockEnd_spec data (CHR ''['') (CHR '']'') \<and>
         closing_bracket_at (CHR ''['') (CHR '']'') data (nat (offset - 1))"
proof -
  let ?r = "blockEnd data (CHR ''['') (CHR '']'')"
  from assms have r: "?r \<noteq> - 1"
    by (auto simp: GetValue_array_branch Let_def split: if_splits)
  with assms have eq: "offset = ?r" and res: "dataType = Array"
    "value = Some (slice_range data 0 ?r)"
    by (auto simp: GetValue_array_branch Let_def)
  have "CHR ''['' \<noteq> CHR '']''" and "CHR '']'' \<noteq> dquote" by simp_all
  from GetValue_block_offset [OF assms(1,2) this r] res
  show ?thesis unfolding eq by blast
qed

lemma GetValue_object_offset:
  assumes "data \<noteq> []" and "data ! 0 = CHR ''{''"
    and "GetValue data = (value, dataType, offset, None)"
  shows "dataType = Object \<and> value = Some (slice_range data 0 offset) \<and>
         2 \<le> offset \<and> offset \<le> int (length data) \<and> data ! nat (offset - 1) = CHR ''}'' \<and>
         offset = blockEnd_spec data (CHR ''{'') (CHR ''}'') \<and>
         closing_bracket_at (CHR ''{'') (CHR ''}'') data (nat (offset - 1))"
proof -
  let ?r = "blockEnd data (CHR ''{'') (CHR ''}'')"
  from assms have r: "?r \<noteq> - 1"
    by (auto simp: GetValue_object_branch Let_def split: if_splits)
  with assms have eq: "offset = ?r" and res: "dataType = Object"
    "value = Some (slice_range data 0 ?r)"
    by (auto simp: GetValue_object_branch Let_def)
  have "CHR ''{'' \<noteq> CHR ''}''" and "CHR ''}'' \<noteq> dquote" by simp_all
  from GetValue_block_offset [OF assms(1,2) this r] res
  show ?thesis unfolding eq by blast
qed

lemma GetValue_token_offset:
  assumes "data \<noteq> []"
    and "data ! 0 \<in> {CHR ''t'', CHR ''f'', CHR ''n''} \<or> data ! 0 \<in> set ''0123456789-''"
    and "GetValue data = (value, dataType, offset, None)"
  shows "(dataType \<in> {Number, Boolean} \<and> value = Some (token data) \<or>
          dataType = Null \<and> value = None) \<and>
         offset = int (length (token data)) \<and> offset < int (length data) \<and>
         data ! nat offset \<in> token_terminators"
  using assms(2)
proof
  assume lit: "data ! 0 \<in> {CHR ''t'', CHR ''f'', CHR ''n''}"
  note ne = assms(1)
  from assms(3) have t: "set data \<inter> token_terminators \<noteq> {}"
    by (auto simp: GetValue_literal_token [OF ne lit] split: if_splits)
  from assms(3) t have
    "(dataType = Null \<and> value = None \<or> dataType = Boolean \<and> value = Some (token data)) \<and>
     offset = int (length (token data))"
    by (auto simp: GetValue_literal_token [OF ne lit] split: if_splits)
  with token_terminated [OF t] show ?thesis by auto
next
  assume num: "data ! 0 \<in> set ''0123456789-''"
  note ne = assms(1)
  from assms(3) have te: "tokenEnd data \<noteq> - 1"
    by (auto simp: GetValue_number_branch [OF ne num] Let_def split: if_splits)
  then have t: "set data \<inter> token_terminators \<noteq> {}"
    by (auto simp: tokenEnd_takeWhile split: if_splits)
  from assms(3) te have "dataType = Number" "value = Some (slice_range data 0 (tokenEnd data))"
    "offset = tokenEnd data"
    by (auto simp: GetValue_number_branch [OF ne num] Let_def)
  with t slice_range_token [OF t] token_terminated [OF t] show ?thesis
    by (simp add: tokenEnd_takeWhile token_def)
qed

text \<open>
  C5. When \<open>GetValue\<close> returns no error, its offset is the index of the first byte after
  the value. For a string it is one past the closing quote: the first quote after the
  opening one that has an even number of backslashes just before it. For an array and an
  object it is one past the closing bracket or brace: the first \<open>]\<close> or \<open>}\<close> outside quoted
  strings at which the nesting depth, counted from the opening byte, is back at zero. These
  offsets are inside the buffer or at its end. For a number, a Boolean and \<open>null\<close> the offset
  is the index of the first token terminator, which ends the token and is not consumed.
  The slice is the bytes between the quotes, the block with its brackets, or the token
  (\<^verbatim>\<open>nil\<close> for \<open>null\<close>).
\<close>

theorem GetValue_offset_after_value:
  assumes "GetValue data = (value, dataType, offset, None)"
  shows "(dataType = String \<and> value = Some (slice_range data 1 (offset - 1)) \<and>
          2 \<le> offset \<and> offset \<le> int (length data) \<and> data ! nat (offset - 1) = dquote \<and>
          offset = stringEnd_spec (slice_from data 1) + 1 \<and>
          closing_quote_at (slice_from data 1) (nat (offset - 2))) \<or>
         (dataType = Array \<and> value = Some (slice_range data 0 offset) \<and>
          2 \<le> offset \<and> offset \<le> int (length data) \<and> data ! nat (offset - 1) = CHR '']'' \<and>
          offset = blockEnd_spec data (CHR ''['') (CHR '']'') \<and>
          closing_bracket_at (CHR ''['') (CHR '']'') data (nat (offset - 1))) \<or>
         (dataType = Object \<and> value = Some (slice_range data 0 offset) \<and>
          2 \<le> offset \<and> offset \<le> int (length data) \<and> data ! nat (offset - 1) = CHR ''}'' \<and>
          offset = blockEnd_spec data (CHR ''{'') (CHR ''}'') \<and>
          closing_bracket_at (CHR ''{'') (CHR ''}'') data (nat (offset - 1))) \<or>
         (dataType \<in> {Number, Boolean} \<and> value = Some (token data) \<and>
          offset = int (length (token data)) \<and> offset < int (length data) \<and>
          data ! nat offset \<in> token_terminators) \<or>
         (dataType = Null \<and> value = None \<and>
          offset = int (length (token data)) \<and> offset < int (length data) \<and>
          data ! nat offset \<in> token_terminators)"
proof -
  from assms have ne: "data \<noteq> []" by (auto simp: GetValue_def)
  consider (str) "data ! 0 = dquote" | (arr) "data ! 0 = CHR ''[''" | (obj) "data ! 0 = CHR ''{''"
    | (tok) "data ! 0 \<in> {CHR ''t'', CHR ''f'', CHR ''n''} \<or> data ! 0 \<in> set ''0123456789-''"
    | (other) "data ! 0 \<noteq> dquote \<and> data ! 0 \<noteq> CHR ''['' \<and> data ! 0 \<noteq> CHR ''{'' \<and>
        data ! 0 \<notin> {CHR ''t'', CHR ''f'', CHR ''n''} \<and> data ! 0 \<notin> set ''0123456789-''"
    by blast
  then show ?thesis
  proof cases
    case str
    from GetValue_string_offset [OF ne str assms] show ?thesis
      by (rule disjI1)
  next
    case arr
    from GetValue_array_offset [OF ne arr assms] show ?thesis
      by (rule disjI2 [OF disjI1])
  next
    case obj
    from GetValue_object_offset [OF ne obj assms] show ?thesis
      by (rule disjI2 [OF disjI2 [OF disjI1]])
  next
    case tok
    from GetValue_token_offset [OF ne tok assms]
    have "(dataType \<in> {Number, Boolean} \<and> value = Some (token data) \<and>
           offset = int (length (token data)) \<and> offset < int (length data) \<and>
           data ! nat offset \<in> token_terminators) \<or>
          (dataType = Null \<and> value = None \<and>
           offset = int (length (token data)) \<and> offset < int (length data) \<and>
           data ! nat offset \<in> token_terminators)"
      by blast
    then show ?thesis
      by (rule disjI2 [OF disjI2 [OF disjI2]])
  next
    case other
    from GetValue_other_branch [of data] other ne obtain e where
      "GetValue data = (None, Unknown, - 1, Some e)" by blast
    with assms show ?thesis by simp
  qed
qed

theorem GetValue_offset_after_value_witness:
  \<open>GetValue (''"a'' @ [bslash] @ ''"b" '') = (Some (''a'' @ [bslash] @ ''"b''), String, 6, None) \<and>
   (''"a'' @ [bslash] @ ''"b" '') ! nat (6 - 1) = dquote \<and>
   closing_quote_at (slice_from (''"a'' @ [bslash] @ ''"b" '') 1) (nat (6 - 2)) \<and>
   GetValue ''[[1],"]",[2]] x'' = (Some ''[[1],"]",[2]]'', Array, 13, None) \<and>
   ''[[1],"]",[2]] x'' ! nat (13 - 1) = CHR '']'' \<and>
   blockEnd_spec ''[[1],"]",[2]] x'' (CHR ''['') (CHR '']'') = 13 \<and>
   GetValue ''{"a":{"b":"}"}},1'' = (Some ''{"a":{"b":"}"}}'', Object, 15, None) \<and>
   ''{"a":{"b":"}"}},1'' ! nat (15 - 1) = CHR ''}'' \<and>
   blockEnd_spec ''{"a":{"b":"}"}},1'' (CHR ''{'') (CHR ''}'') = 15 \<and>
   GetValue ''42,'' = (Some ''42'', Number, 2, None) \<and>
   ''42,'' ! nat 2 \<in> token_terminators \<and>
   GetValue ''null]'' = (None, Null, 4, None) \<and>
   ''null]'' ! nat 4 \<in> token_terminators\<close>
proof -
  have s: \<open>GetValue (''"a'' @ [bslash] @ ''"b" '') =
      (Some (''a'' @ [bslash] @ ''"b''), String, 6, None)\<close>
    by code_simp
  have a: \<open>GetValue ''[[1],"]",[2]] x'' = (Some ''[[1],"]",[2]]'', Array, 13, None)\<close>
    by code_simp
  have ob: \<open>GetValue ''{"a":{"b":"}"}},1'' = (Some ''{"a":{"b":"}"}}'', Object, 15, None)\<close>
    by code_simp
  have n: \<open>GetValue ''42,'' = (Some ''42'', Number, 2, None)\<close> by code_simp
  have l: \<open>GetValue ''null]'' = (None, Null, 4, None)\<close> by code_simp
  from GetValue_offset_after_value [OF s]
  have \<open>(''"a'' @ [bslash] @ ''"b" '') ! nat (6 - 1) = dquote \<and>
    closing_quote_at (slice_from (''"a'' @ [bslash] @ ''"b" '') 1) (nat (6 - 2))\<close>
    by simp
  moreover from GetValue_offset_after_value [OF a]
  have \<open>''[[1],"]",[2]] x'' ! nat (13 - 1) = CHR '']'' \<and>
    blockEnd_spec ''[[1],"]",[2]] x'' (CHR ''['') (CHR '']'') = 13\<close>
    by simp
  moreover from GetValue_offset_after_value [OF ob]
  have \<open>''{"a":{"b":"}"}},1'' ! nat (15 - 1) = CHR ''}'' \<and>
    blockEnd_spec ''{"a":{"b":"}"}},1'' (CHR ''{'') (CHR ''}'') = 15\<close>
    by simp
  moreover from GetValue_offset_after_value [OF n]
  have \<open>''42,'' ! nat 2 \<in> token_terminators\<close> by simp
  moreover from GetValue_offset_after_value [OF l]
  have \<open>''null]'' ! nat 4 \<in> token_terminators\<close> by simp
  ultimately show ?thesis using s a ob n l by simp
qed

section \<open>Arrays in the key search\<close>

lemma searchKeys_loop_at_array:
  assumes "0 \<le> i" "i < int (length data)" "data ! nat i = CHR ''[''"
  shows "searchKeys_loop data keys keyLevel level i =
         searchKeys_loop data keys keyLevel level
           (i + blockEnd (slice_from data i) (CHR ''['') (CHR '']''))"
  using assms by (subst searchKeys_loop.simps) (simp add: Let_def)

text \<open>
  An array that closes is skipped as a whole: at its \<open>[\<close> the search goes on one past the
  bracket at which the depth, counted from that \<open>[\<close>, is back at zero, with \<open>keyLevel\<close> and
  \<open>level\<close> as they were.
\<close>

lemma searchKeys_loop_skips_closed_array:
  assumes "0 \<le> i" "i < int (length data)" "data ! nat i = CHR ''[''"
    and closed: "blockEnd (slice_from data i) (CHR ''['') (CHR '']'') \<noteq> - 1"
  shows "searchKeys_loop data keys keyLevel level i =
         searchKeys_loop data keys keyLevel level
           (i + blockEnd_spec (slice_from data i) (CHR ''['') (CHR '']'')) \<and>
         closing_bracket_at (CHR ''['') (CHR '']'') (slice_from data i)
           (nat (blockEnd_spec (slice_from data i) (CHR ''['') (CHR '']'') - 1))"
proof -
  have syms: "CHR ''['' \<noteq> CHR '']''" "CHR '']'' \<noteq> dquote" by simp_all
  note eq = blockEnd_eq_spec [OF syms, of "slice_from data i"]
  from closed eq have "blockEnd_spec (slice_from data i) (CHR ''['') (CHR '']'') \<noteq> - 1"
    by metis
  from blockEnd_spec_closing [OF this] searchKeys_loop_at_array [OF assms(1-3)] eq
  show ?thesis by metis
qed

lemma Get_key_inside_nested_array:
  \<open>Get ''{"a":[[1],{"b":2}]}'' [''a'', ''b''] =
     Some (Return (None, NotExist, - 1, Some KeyPathNotFoundError))\<close>
  by code_simp

lemma Get_key_after_array:
  \<open>Get ''{"a":[[1],{"b":2}],"b":3}'' [''b''] = Some (Return (Some ''3'', Number, 24, None))\<close>
  by code_simp





end
